theory Spec2Isabelle
  imports Complex_Main "HOL-Library.Sublist"
begin

section \<open>Web-log analysis (assignment3.py)\<close>

text \<open>
  The program reads a web-server log as CSV text, counts the requests for image
  files, computes their percentage and reports the most used browser.

  A Python \<open>str\<close> that comes from the log is the list of its code points
  (\<open>pystr\<close>). The strings that the program itself writes down (column names,
  browser names, extensions) are ASCII and are given as \<open>string\<close>; \<open>str\<close> gives
  their code points. Exceptions are values of the type \<open>error\<close>; a function
  that may raise returns \<open>error + 'a\<close>.
\<close>

type_synonym pystr = "nat list"

definition str :: "string \<Rightarrow> pystr" where
  "str s = map of_char s"

text \<open>The characters that the program and the libraries treat specially.\<close>

abbreviation (input) LF :: nat where "LF \<equiv> 10"
abbreviation (input) CR :: nat where "CR \<equiv> 13"
abbreviation (input) QUOTE :: nat where "QUOTE \<equiv> 34"
abbreviation (input) COMMA :: nat where "COMMA \<equiv> 44"
abbreviation (input) DOT :: nat where "DOT \<equiv> 46"

datatype error =
    KeyError            \<comment> \<open>\<open>record['path']\<close>, \<open>record['browser']\<close>, \<open>browser_counts[k]\<close>\<close>
  | ValueError          \<comment> \<open>\<open>max\<close> of an empty iterable\<close>
  | ZeroDivisionError   \<comment> \<open>\<open>image_count / rows_total\<close> with \<open>rows_total = 0\<close>\<close>
  | OverflowError       \<comment> \<open>integer division result too large for a float\<close>
  | CsvError            \<comment> \<open>\<open>_csv.Error\<close> raised by the reader\<close>

text \<open>
  A record is the \<open>dict\<close> built by \<open>dict(zip(column_names, row))\<close>: its keys are
  column names, its values fields of the log.
\<close>

type_synonym log_record = "string \<rightharpoonup> pystr"

subsection \<open>Searching for an alternation of literals\<close>

text \<open>
  \<open>find_most_used_browser\<close> builds the pattern \<open>'(' + '|'.join(browser_types) + ')'\<close>:
  one group holding an alternation of literals (none of the four names has a
  character that is special in a pattern). \<open>re.search\<close> tries the start
  positions of the text from left to right; at one position the alternatives are
  tried in the order of the list. The result is \<open>match.group(1)\<close>, the text
  matched, which is the alternative itself, or \<open>None\<close>.
\<close>

fun match_alternatives :: "string list \<Rightarrow> pystr \<Rightarrow> string option" where
  "match_alternatives [] s = None"
| "match_alternatives (a # as) s =
     (if prefix (str a) s then Some a else match_alternatives as s)"

fun re_search_group :: "string list \<Rightarrow> pystr \<Rightarrow> string option" where
  "re_search_group alts [] = match_alternatives alts []"
| "re_search_group alts (c # cs) =
     (case match_alternatives alts (c # cs) of
        Some a \<Rightarrow> Some a
      | None \<Rightarrow> re_search_group alts cs)"

subsection \<open>find\_most\_used\_browser\<close>

definition browser_types :: "string list" where
  "browser_types = [''Firefox'', ''Chrome'', ''Internet Explorer'', ''Safari'']"

text \<open>
  \<open>browser_counts\<close> is a \<open>dict\<close>; its iteration order is the insertion order, which
  \<open>max\<close> depends on, so it is an association list with distinct keys.
\<close>

type_synonym tally = "(string \<times> nat) list"

text \<open>\<open>for browser in browser_types: browser_counts[browser] = 0\<close>\<close>

definition initial_counts :: tally where
  "initial_counts = map (\<lambda>browser. (browser, 0)) browser_types"

text \<open>\<open>browser_counts[found_browser] += 1\<close>, a \<open>KeyError\<close> when the key is missing.\<close>

fun increment :: "string \<Rightarrow> tally \<Rightarrow> error + tally" where
  "increment k [] = Inl KeyError"
| "increment k ((k', n) # kvs) =
     (if k' = k then Inr ((k', n + 1) # kvs)
      else (case increment k kvs of
              Inl e \<Rightarrow> Inl e
            | Inr kvs' \<Rightarrow> Inr ((k', n) # kvs')))"

text \<open>The body of the loop over the records, for one record.\<close>

definition count_browser :: "tally \<Rightarrow> log_record \<Rightarrow> error + tally" where
  "count_browser browser_counts record =
     (case record ''browser'' of
        None \<Rightarrow> Inl KeyError
      | Some b \<Rightarrow>
          (case re_search_group browser_types b of
             None \<Rightarrow> Inr browser_counts
           | Some found_browser \<Rightarrow> increment found_browser browser_counts))"

fun count_browsers :: "tally \<Rightarrow> log_record list \<Rightarrow> error + tally" where
  "count_browsers browser_counts [] = Inr browser_counts"
| "count_browsers browser_counts (record # records) =
     (case count_browser browser_counts record of
        Inl e \<Rightarrow> Inl e
      | Inr browser_counts' \<Rightarrow> count_browsers browser_counts' records)"

text \<open>
  \<open>max(browser_counts, key=browser_counts.get)\<close>: \<open>max\<close> keeps the first item and
  replaces it only by an item whose key is strictly greater.
\<close>

fun max_loop :: "string \<times> nat \<Rightarrow> tally \<Rightarrow> string \<times> nat" where
  "max_loop best [] = best"
| "max_loop best (kv # kvs) = max_loop (if snd best < snd kv then kv else best) kvs"

definition max_key :: "tally \<Rightarrow> error + string" where
  "max_key browser_counts =
     (case browser_counts of
        [] \<Rightarrow> Inl ValueError
      | kv # kvs \<Rightarrow> Inr (fst (max_loop kv kvs)))"

definition find_most_used_browser :: "log_record list \<Rightarrow> error + string" where
  "find_most_used_browser records =
     (case count_browsers initial_counts records of
        Inl e \<Rightarrow> Inl e
      | Inr browser_counts \<Rightarrow> max_key browser_counts)"

subsection \<open>count\_images\<close>

text \<open>
  The pattern is \<open>'\.(' + '|'.join(image_extensions) + ')$'\<close>, searched with
  \<open>re.IGNORECASE\<close>. Under this flag an ASCII letter of the pattern matches
  itself in both cases, and besides \<open>i\<close> matches U+0130 and U+0131, \<open>s\<close> matches
  U+017F and \<open>k\<close> matches U+212A; any other ASCII character of the pattern
  matches itself only. The patterns of the program have ASCII characters only.
\<close>

definition literal_matches :: "char \<Rightarrow> nat \<Rightarrow> bool" where
  "literal_matches p c =
     (let n = (of_char p :: nat)
      in if 97 \<le> n \<and> n \<le> 122 then
           c = n \<or> c = n - 32 \<or> (n = 105 \<and> (c = 304 \<or> c = 305))
             \<or> (n = 115 \<and> c = 383) \<or> (n = 107 \<and> c = 8490)
         else if 65 \<le> n \<and> n \<le> 90 then
           c = n \<or> c = n + 32 \<or> (n = 73 \<and> (c = 304 \<or> c = 305))
             \<or> (n = 83 \<and> c = 383) \<or> (n = 75 \<and> c = 8490)
         else c = n)"

text \<open>A literal matched without regard to case; the result is the rest of the text.\<close>

fun match_literal_ignorecase :: "string \<Rightarrow> pystr \<Rightarrow> pystr option" where
  "match_literal_ignorecase [] s = Some s"
| "match_literal_ignorecase (p # ps) [] = None"
| "match_literal_ignorecase (p # ps) (c # cs) =
     (if literal_matches p c then match_literal_ignorecase ps cs else None)"

text \<open>
  \<open>$\<close> (without \<open>re.MULTILINE\<close>) matches at the end of the text and just before a
  newline that is the last character of the text.
\<close>

definition at_end :: "pystr \<Rightarrow> bool" where
  "at_end s \<longleftrightarrow> s = [] \<or> s = [LF]"

text \<open>
  The group \<open>(jpg|gif|png)\<close> followed by \<open>$\<close>: the alternatives in order, the next
  one tried when \<open>$\<close> fails after the current one.
\<close>

fun match_extension :: "string list \<Rightarrow> pystr \<Rightarrow> bool" where
  "match_extension [] s = False"
| "match_extension (e # es) s =
     (case match_literal_ignorecase e s of
        Some rest \<Rightarrow> at_end rest \<or> match_extension es s
      | None \<Rightarrow> match_extension es s)"

definition match_image_here :: "string list \<Rightarrow> pystr \<Rightarrow> bool" where
  "match_image_here exts s =
     (case s of [] \<Rightarrow> False | c # cs \<Rightarrow> c = DOT \<and> match_extension exts cs)"

fun re_search_image :: "string list \<Rightarrow> pystr \<Rightarrow> bool" where
  "re_search_image exts [] = match_image_here exts []"
| "re_search_image exts (c # cs) =
     (match_image_here exts (c # cs) \<or> re_search_image exts cs)"

definition image_extensions :: "string list" where
  "image_extensions = [''jpg'', ''gif'', ''png'']"

fun count_images_loop :: "nat \<Rightarrow> log_record list \<Rightarrow> error + nat" where
  "count_images_loop image_count [] = Inr image_count"
| "count_images_loop image_count (record # records) =
     (case record ''path'' of
        None \<Rightarrow> Inl KeyError
      | Some path \<Rightarrow>
          count_images_loop
            (if re_search_image image_extensions path then image_count + 1 else image_count)
            records)"

definition count_images :: "log_record list \<Rightarrow> error + nat" where
  "count_images records = count_images_loop 0 records"

subsection \<open>read\_csv\<close>

text \<open>
  \<open>io.StringIO(weblog_data)\<close> keeps the text as it is (its \<open>newline\<close> argument
  defaults to \<open>'\n'\<close>); iterating over it gives the lines, each ending with its
  \<open>'\n'\<close> except possibly the last.
\<close>

fun readlines_from :: "pystr \<Rightarrow> pystr \<Rightarrow> pystr list" where
  "readlines_from line [] = (if line = [] then [] else [line])"
| "readlines_from line (c # cs) =
     (if c = LF then (line @ [c]) # readlines_from [] cs
      else readlines_from (line @ [c]) cs)"

definition readlines :: "pystr \<Rightarrow> pystr list" where
  "readlines text = readlines_from [] text"

text \<open>
  \<open>csv.reader(file, delimiter=',')\<close> has the dialect \<open>excel\<close>: the quote character is
  \<open>"\<close>, a doubled quote inside a quoted field stands for one quote, there is no
  escape character, no skipping of initial spaces, and the reader is not strict.
  The reader is the state machine of the module \<open>_csv\<close> (CPython 3.11 and later,
  where a NUL character is an ordinary character); the states that only an
  escape character reaches are left out. \<open>field\<close> is the buffer of the field
  being read, \<open>record_fields\<close> the fields of the record read so far. A field
  may have at most \<open>field_limit\<close> characters (\<open>csv.field_size_limit()\<close>), and a
  character other than a line end after the line end of an unquoted field is an
  error.
\<close>

datatype ParserState =
  START_RECORD | START_FIELD | IN_FIELD | IN_QUOTED_FIELD | QUOTE_IN_QUOTED_FIELD | EAT_CRNL

record reader =
  state :: ParserState
  record_fields :: "pystr list"
  field :: pystr

definition field_limit :: nat where
  "field_limit = 131072"

definition parse_reset :: reader where
  "parse_reset = \<lparr>state = START_RECORD, record_fields = [], field = []\<rparr>"

definition parse_save_field :: "reader \<Rightarrow> reader" where
  "parse_save_field self = self\<lparr>record_fields := record_fields self @ [field self], field := []\<rparr>"

definition parse_add_char :: "reader \<Rightarrow> nat \<Rightarrow> error + reader" where
  "parse_add_char self c =
     (if field_limit \<le> length (field self) then Inl CsvError
      else Inr (self\<lparr>field := field self @ [c]\<rparr>))"

definition is_newline :: "nat \<Rightarrow> bool" where
  "is_newline c \<longleftrightarrow> c = LF \<or> c = CR"

text \<open>
  One step of the reader. The character \<open>None\<close> is the end-of-line mark that the
  reader feeds itself after the last character of every line.
\<close>

definition start_field :: "reader \<Rightarrow> nat option \<Rightarrow> error + reader" where
  "start_field self c =
     (case c of
        None \<Rightarrow> Inr ((parse_save_field self)\<lparr>state := START_RECORD\<rparr>)
      | Some ch \<Rightarrow>
          if is_newline ch then Inr ((parse_save_field self)\<lparr>state := EAT_CRNL\<rparr>)
          else if ch = QUOTE then Inr (self\<lparr>state := IN_QUOTED_FIELD\<rparr>)
          else if ch = COMMA then Inr (parse_save_field self)
          else (case parse_add_char self ch of
                  Inl e \<Rightarrow> Inl e
                | Inr self' \<Rightarrow> Inr (self'\<lparr>state := IN_FIELD\<rparr>)))"

definition parse_process_char :: "reader \<Rightarrow> nat option \<Rightarrow> error + reader" where
  "parse_process_char self c =
     (case state self of
        START_RECORD \<Rightarrow>
          (case c of
             None \<Rightarrow> Inr self
           | Some ch \<Rightarrow>
               if is_newline ch then Inr (self\<lparr>state := EAT_CRNL\<rparr>)
               else start_field (self\<lparr>state := START_FIELD\<rparr>) c)
      | START_FIELD \<Rightarrow> start_field self c
      | IN_FIELD \<Rightarrow>
          (case c of
             None \<Rightarrow> Inr ((parse_save_field self)\<lparr>state := START_RECORD\<rparr>)
           | Some ch \<Rightarrow>
               if is_newline ch then Inr ((parse_save_field self)\<lparr>state := EAT_CRNL\<rparr>)
               else if ch = COMMA then Inr ((parse_save_field self)\<lparr>state := START_FIELD\<rparr>)
               else parse_add_char self ch)
      | IN_QUOTED_FIELD \<Rightarrow>
          (case c of
             None \<Rightarrow> Inr self
           | Some ch \<Rightarrow>
               if ch = QUOTE then Inr (self\<lparr>state := QUOTE_IN_QUOTED_FIELD\<rparr>)
               else parse_add_char self ch)
      | QUOTE_IN_QUOTED_FIELD \<Rightarrow>
          (case c of
             None \<Rightarrow> Inr ((parse_save_field self)\<lparr>state := START_RECORD\<rparr>)
           | Some ch \<Rightarrow>
               if ch = QUOTE then
                 (case parse_add_char self ch of
                    Inl e \<Rightarrow> Inl e
                  | Inr self' \<Rightarrow> Inr (self'\<lparr>state := IN_QUOTED_FIELD\<rparr>))
               else if ch = COMMA then Inr ((parse_save_field self)\<lparr>state := START_FIELD\<rparr>)
               else if is_newline ch then Inr ((parse_save_field self)\<lparr>state := EAT_CRNL\<rparr>)
               else (case parse_add_char self ch of
                       Inl e \<Rightarrow> Inl e
                     | Inr self' \<Rightarrow> Inr (self'\<lparr>state := IN_FIELD\<rparr>)))
      | EAT_CRNL \<Rightarrow>
          (case c of
             None \<Rightarrow> Inr (self\<lparr>state := START_RECORD\<rparr>)
           | Some ch \<Rightarrow> if is_newline ch then Inr self else Inl CsvError))"

text \<open>The characters of one line, in order.\<close>

fun parse_chars :: "reader \<Rightarrow> pystr \<Rightarrow> error + reader" where
  "parse_chars self [] = Inr self"
| "parse_chars self (c # cs) =
     (case parse_process_char self (Some c) of
        Inl e \<Rightarrow> Inl e
      | Inr self' \<Rightarrow> parse_chars self' cs)"

text \<open>One line: its characters, then the end-of-line mark.\<close>

definition parse_line :: "reader \<Rightarrow> pystr \<Rightarrow> error + reader" where
  "parse_line self line =
     (case parse_chars self line of
        Inl e \<Rightarrow> Inl e
      | Inr self' \<Rightarrow> parse_process_char self' None)"

text \<open>
  \<open>for row in reader\<close>: the reader is reset before every row and takes lines until
  its state is \<open>START_RECORD\<close> again, then gives the fields as the row. When the
  lines run out inside a row (the buffer is not empty, or a quoted field is open)
  the buffer is saved and the fields are the last row; when they run out before a
  row the iteration ends. The first argument is the reader inside the current row.
\<close>

fun reader_rows :: "reader \<Rightarrow> pystr list \<Rightarrow> error + pystr list list" where
  "reader_rows self [] =
     (if field self \<noteq> [] \<or> state self = IN_QUOTED_FIELD
      then Inr [record_fields (parse_save_field self)] else Inr [])"
| "reader_rows self (line # lines) =
     (case parse_line self line of
        Inl e \<Rightarrow> Inl e
      | Inr self' \<Rightarrow>
          if state self' \<noteq> START_RECORD then reader_rows self' lines
          else (case reader_rows parse_reset lines of
                  Inl e \<Rightarrow> Inl e
                | Inr rows \<Rightarrow> Inr (record_fields self' # rows)))"

definition column_names :: "string list" where
  "column_names = [''path'', ''datetime_accessed'', ''browser'', ''request'', ''size'']"

text \<open>\<open>dict(zip(column_names, row))\<close>: \<open>zip\<close> stops at the shorter of the two lists.\<close>

definition make_record :: "pystr list \<Rightarrow> log_record" where
  "make_record row = Map.empty(column_names [\<mapsto>] row)"

definition read_csv :: "pystr \<Rightarrow> error + log_record list" where
  "read_csv weblog_data =
     (case reader_rows parse_reset (readlines weblog_data) of
        Inl e \<Rightarrow> Inl e
      | Inr rows \<Rightarrow> Inr (map make_record rows))"

subsection \<open>find\_image\_percentage\<close>

text \<open>
  A Python \<open>float\<close> is a binary64 number. The counts are not negative, so the
  values that occur are the finite numbers \<open>m \<times> 2\<^sup>e\<close> with \<open>m < 2\<^sup>5\<^sup>3\<close> and
  \<open>-1074 \<le> e \<le> 971\<close>, written \<open>Float m e\<close> with \<open>2\<^sup>5\<^sup>2 \<le> m\<close> unless \<open>e = -1074\<close>
  (zero is \<open>Float 0 (-1074)\<close>), and infinity.
\<close>

datatype pyfloat = Float nat int | Infinity

fun bit_length :: "nat \<Rightarrow> nat" where
  "bit_length n = (if n = 0 then 0 else Suc (bit_length (n div 2)))"

text \<open>The integer nearest to \<open>n / d\<close>, the even one of the two when it is halfway.\<close>

definition round_half_even :: "nat \<Rightarrow> nat \<Rightarrow> nat" where
  "round_half_even n d =
     (let q = n div d; r = n mod d
      in if 2 * r < d then q
         else if d < 2 * r then q + 1
         else if even q then q else q + 1)"

text \<open>\<open>2\<^sup>k \<le> n / d\<close>, and \<open>n / d\<close> rounded to a multiple of \<open>2\<^sup>e\<close> (counted in units of \<open>2\<^sup>e\<close>).\<close>

definition power2_le :: "int \<Rightarrow> nat \<Rightarrow> nat \<Rightarrow> bool" where
  "power2_le k n d \<longleftrightarrow> (if 0 \<le> k then d * 2 ^ nat k \<le> n else d \<le> n * 2 ^ nat (- k))"

definition round_at :: "int \<Rightarrow> nat \<Rightarrow> nat \<Rightarrow> nat" where
  "round_at e n d =
     (if 0 \<le> e then round_half_even n (d * 2 ^ nat e)
      else round_half_even (n * 2 ^ nat (- e)) d)"

text \<open>
  The binary64 number nearest to \<open>n / d\<close> (\<open>d > 0\<close>), ties to the even significand,
  as mantissa and exponent; the exponent exceeds 971 when the result is too large
  for a float. \<open>l\<close> is the integer part of the binary logarithm of \<open>n / d\<close>.
\<close>

definition round_binary64 :: "nat \<Rightarrow> nat \<Rightarrow> nat \<times> int" where
  "round_binary64 n d =
     (if n = 0 then (0, - 1074)
      else
        let k = int (bit_length n) - int (bit_length d);
            l = (if power2_le k n d then k else k - 1);
            e = max (l - 52) (- 1074);
            m = round_at e n d
        in if m = 2 ^ 53 then (2 ^ 52, e + 1) else (m, e))"

text \<open>
  \<open>image_count / rows_total\<close>: the true division of two integers gives the float
  nearest to the quotient; it raises when the divisor is zero or the quotient is
  too large.
\<close>

definition int_true_divide :: "nat \<Rightarrow> nat \<Rightarrow> error + pyfloat" where
  "int_true_divide a b =
     (if b = 0 then Inl ZeroDivisionError
      else (case round_binary64 a b of
              (m, e) \<Rightarrow> if 971 < e then Inl OverflowError else Inr (Float m e)))"

text \<open>\<open>x * 100\<close>: the float nearest to the product, infinity when that is too large.\<close>

fun float_times_100 :: "pyfloat \<Rightarrow> pyfloat" where
  "float_times_100 Infinity = Infinity"
| "float_times_100 (Float m e) =
     (case round_binary64 (m * 100 * 2 ^ nat e) (2 ^ nat (- e)) of
        (m', e') \<Rightarrow> if 971 < e' then Infinity else Float m' e')"

definition find_image_percentage :: "nat \<Rightarrow> nat \<Rightarrow> error + pyfloat" where
  "find_image_percentage image_count rows_total =
     (case int_true_divide image_count rows_total of
        Inl e \<Rightarrow> Inl e
      | Inr ratio \<Rightarrow> Inr (float_times_100 ratio))"

subsection \<open>main\<close>

text \<open>
  \<open>main\<close> after the download: the four calls on the downloaded text. The result
  holds the values that \<open>main\<close> prints.
\<close>

record analysis =
  image_count :: nat
  total_rows :: nat
  image_percentage :: pyfloat
  browser_count :: string

definition main :: "pystr \<Rightarrow> error + analysis" where
  "main weblog_data =
     (case read_csv weblog_data of
        Inl e \<Rightarrow> Inl e
      | Inr records \<Rightarrow>
          (case count_images records of
             Inl e \<Rightarrow> Inl e
           | Inr n \<Rightarrow>
               (case find_image_percentage n (length records) of
                  Inl e \<Rightarrow> Inl e
                | Inr p \<Rightarrow>
                    (case find_most_used_browser records of
                       Inl e \<Rightarrow> Inl e
                     | Inr b \<Rightarrow>
                         Inr \<lparr>image_count = n, total_rows = length records,
                              image_percentage = p, browser_count = b\<rparr>))))"

text \<open>
  \<open>f"{image_percentage:.2f}"\<close>: the decimal numeral with two digits after the
  point that is nearest to the float, the even one when it is halfway. It is
  text that the program writes, of ASCII characters.
\<close>

definition digit_char :: "nat \<Rightarrow> char" where
  "digit_char d = ''0123456789'' ! d"

fun decimal :: "nat \<Rightarrow> string" where
  "decimal n = (if n < 10 then [digit_char n] else decimal (n div 10) @ [digit_char (n mod 10)])"

fun format_2f :: "pyfloat \<Rightarrow> string" where
  "format_2f Infinity = ''inf''"
| "format_2f (Float m e) =
     (let h = round_at (- e) (m * 100) 1
      in decimal (h div 100) @ ''.'' @ [digit_char (h mod 100 div 10), digit_char (h mod 10)])"

text \<open>The input of the end-to-end example of the specification (section 8).\<close>

definition example_text :: pystr where
  "example_text =
     str ''/img/a.jpg,2020-01-01,Mozilla Firefox 88,GET /img/a.jpg,200'' @ [LF] @
     str ''/index.html,2020-01-01,Chrome 90,GET /index.html,150'' @ [LF] @
     str ''/pics/b.PNG,2020-01-01,Firefox 89,GET /pics/b.PNG,300'' @ [LF]"

subsection \<open>Statements of the specification\<close>

text \<open>
  The definitions of this subsection follow the words of the specification, not
  the code; the theorems compare them with the functions above.
\<close>

text \<open>
  Specification, 4.4: ``first identifier in the list that appears anywhere in
  the field wins''.
\<close>

definition spec_first_in_list :: "pystr \<Rightarrow> string option" where
  "spec_first_in_list b = find (\<lambda>a. sublist (str a) b) browser_types"




text \<open>
  The pieces of a text between the occurrences of a separator, as
  \<open>text.split(sep)\<close> gives them: plain splitting, with no quoting rule.
\<close>

fun split_at :: "nat \<Rightarrow> pystr \<Rightarrow> pystr \<Rightarrow> pystr list" where
  "split_at sep piece [] = [piece]"
| "split_at sep piece (c # cs) =
     (if c = sep then piece # split_at sep [] cs else split_at sep (piece @ [c]) cs)"




subsection \<open>Notions for the proofs about the reader\<close>








section \<open>Properties of the browser detector\<close>

lemma match_alternatives_Some:
  "match_alternatives alts s = Some a \<Longrightarrow> a \<in> set alts \<and> prefix (str a) s"
  by (induction alts) (auto split: if_splits)

lemma match_alternatives_None:
  "match_alternatives alts s = None \<longleftrightarrow> (\<forall>a\<in>set alts. \<not> prefix (str a) s)"
  by (induction alts) auto

lemma re_search_group_None:
  "re_search_group alts s = None \<longleftrightarrow> (\<forall>a\<in>set alts. \<not> sublist (str a) s)"
proof (induction s)
  case Nil
  show ?case by (simp add: match_alternatives_None)
next
  case (Cons c cs)
  show ?case
    by (auto simp: Cons match_alternatives_None sublist_Cons_right
        dest: match_alternatives_Some split: option.splits)
qed

text \<open>The match starts at the first position where some alternative is a prefix.\<close>

lemma re_search_group_at:
  assumes "i \<le> length s" "match_alternatives alts (drop i s) = Some a"
    "\<forall>j<i. match_alternatives alts (drop j s) = None"
  shows "re_search_group alts s = Some a"
  using assms
proof (induction s arbitrary: i)
  case Nil
  then show ?case by simp
next
  case (Cons c cs)
  show ?case
  proof (cases i)
    case 0
    with Cons.prems show ?thesis by simp
  next
    case (Suc k)
    from Cons.prems(3) Suc have "match_alternatives alts (drop 0 (c # cs)) = None"
      by blast
    moreover have "re_search_group alts cs = Some a"
    proof (rule Cons.IH[of k])
      show "k \<le> length cs" using Cons.prems(1) Suc by simp
      show "match_alternatives alts (drop k cs) = Some a" using Cons.prems(2) Suc by simp
      show "\<forall>j<k. match_alternatives alts (drop j cs) = None"
      proof (intro allI impI)
        fix j assume "j < k"
        then have "Suc j < i" using Suc by simp
        with Cons.prems(3) have "match_alternatives alts (drop (Suc j) (c # cs)) = None" by blast
        then show "match_alternatives alts (drop j cs) = None" by simp
      qed
    qed
    ultimately show ?thesis by simp
  qed
qed

lemma browser_types_prefix_unique:
  assumes "a \<in> set browser_types" "prefix (str a) s"
  shows "match_alternatives browser_types s = Some a"
proof -
  from assms(2) obtain t where s: "s = str a @ t"
    by (auto simp: prefix_def)
  from assms(1) have "a = ''Firefox'' \<or> a = ''Chrome'' \<or> a = ''Internet Explorer'' \<or> a = ''Safari''"
    by (simp add: browser_types_def)
  then show ?thesis
    unfolding s browser_types_def by (elim disjE) (simp_all add: str_def)
qed

lemma increment_map:
  "distinct (map fst counts) \<Longrightarrow> k \<in> set (map fst counts) \<Longrightarrow>
   increment k counts = Inr (map (\<lambda>(k', n). (k', if k' = k then n + 1 else n)) counts)"
proof (induction counts)
  case Nil
  then show ?case by simp
next
  case (Cons kv kvs)
  obtain k' n where kv: "kv = (k', n)" by (cases kv)
  show ?case
  proof (cases "k' = k")
    case True
    with Cons.prems kv have "k \<notin> fst ` set kvs" by auto
    then have "map (\<lambda>(k', n). (k', if k' = k then n + 1 else n)) kvs = kvs"
      by (induction kvs) auto
    with True kv show ?thesis by simp
  next
    case False
    with Cons kv show ?thesis by auto
  qed
qed

lemma distinct_browser_types: "distinct browser_types"
  by (simp add: browser_types_def)

lemma re_search_group_mem:
  "re_search_group alts s = Some a \<Longrightarrow> a \<in> set alts"
  by (induction s) (auto dest: match_alternatives_Some split: option.splits)

lemma increment_keys:
  "increment k counts = Inr counts' \<Longrightarrow> map fst counts' = map fst counts"
  by (induction counts arbitrary: counts') (auto split: if_splits sum.splits)

lemma increment_Inr:
  "k \<in> set (map fst counts) \<Longrightarrow> \<exists>counts'. increment k counts = Inr counts'"
proof (induction counts)
  case Nil
  then show ?case by simp
next
  case (Cons kv kvs)
  obtain k' n where kv: "kv = (k', n)" by (cases kv)
  show ?case
  proof (cases "k' = k")
    case True
    with kv show ?thesis by simp
  next
    case False
    with Cons.prems kv have "k \<in> set (map fst kvs)" by auto
    then obtain c where "increment k kvs = Inr c" using Cons.IH by blast
    with False kv show ?thesis by simp
  qed
qed

lemma count_browser_keys:
  assumes "count_browser counts record = Inr counts'"
  shows "map fst counts' = map fst counts"
  using assms
  by (auto simp: count_browser_def dest: increment_keys split: option.splits)

lemma count_browser_Inr:
  assumes "map fst counts = browser_types" "record ''browser'' = Some b"
  shows "\<exists>counts'. count_browser counts record = Inr counts'"
proof (cases "re_search_group browser_types b")
  case None
  with assms(2) show ?thesis by (simp add: count_browser_def)
next
  case (Some a)
  then have "a \<in> set (map fst counts)"
    using assms(1) by (simp add: re_search_group_mem)
  then obtain counts' where "increment a counts = Inr counts'"
    using increment_Inr by blast
  with Some assms(2) show ?thesis by (simp add: count_browser_def)
qed

lemma count_browsers_keys:
  "count_browsers counts records = Inr counts' \<Longrightarrow> map fst counts' = map fst counts"
proof (induction records arbitrary: counts)
  case Nil
  then show ?case by simp
next
  case (Cons r rs)
  then show ?case
    by (auto split: sum.splits dest: count_browser_keys)
qed

lemma count_browsers_Inr:
  assumes "map fst counts = browser_types" "\<forall>r\<in>set records. r ''browser'' \<noteq> None"
  shows "\<exists>counts'. count_browsers counts records = Inr counts'"
  using assms
proof (induction records arbitrary: counts)
  case Nil
  then show ?case by simp
next
  case (Cons r rs)
  from Cons.prems(2) obtain b where b: "r ''browser'' = Some b" by auto
  from Cons.prems(1) b obtain c1 where c1: "count_browser counts r = Inr c1"
    using count_browser_Inr[of counts r b] by blast
  then have "map fst c1 = browser_types"
    using Cons.prems(1) count_browser_keys by fastforce
  then obtain c2 where "count_browsers c1 rs = Inr c2"
    using Cons.IH Cons.prems(2) by auto
  with c1 show ?case by simp
qed

lemma count_browsers_KeyError:
  assumes "map fst counts = browser_types" "\<exists>r\<in>set records. r ''browser'' = None"
  shows "count_browsers counts records = Inl KeyError"
  using assms
proof (induction records arbitrary: counts)
  case Nil
  then show ?case by simp
next
  case (Cons r rs)
  show ?case
  proof (cases "r ''browser''")
    case None
    then show ?thesis by (simp add: count_browser_def)
  next
    case (Some b)
    from Cons.prems(1) Some obtain c1 where c1: "count_browser counts r = Inr c1"
      using count_browser_Inr[of counts r b] by blast
    then have "map fst c1 = browser_types"
      using Cons.prems(1) count_browser_keys by fastforce
    moreover have "\<exists>r\<in>set rs. r ''browser'' = None"
      using Cons.prems(2) Some by auto
    ultimately have "count_browsers c1 rs = Inl KeyError"
      by (rule Cons.IH)
    with c1 show ?thesis by simp
  qed
qed

lemma initial_counts_keys: "map fst initial_counts = browser_types"
  by (simp add: initial_counts_def comp_def)

lemma max_loop_first_maximum:
  "\<exists>pre post. best # kvs = pre @ max_loop best kvs # post
     \<and> (\<forall>x\<in>set pre. snd x < snd (max_loop best kvs))
     \<and> (\<forall>x\<in>set post. snd x \<le> snd (max_loop best kvs))"
proof (induction kvs arbitrary: best)
  case Nil
  show ?case
    by (rule exI[of _ "[]"], rule exI[of _ "[]"]) simp
next
  case (Cons kv kvs)
  show ?case
  proof (cases "snd best < snd kv")
    case True
    define r where "r = max_loop kv kvs"
    have res: "max_loop best (kv # kvs) = r"
      using True by (simp add: r_def)
    from Cons.IH[of kv] obtain pre post where
      eq: "kv # kvs = pre @ r # post"
      and lt: "\<forall>x\<in>set pre. snd x < snd r"
      and le: "\<forall>x\<in>set post. snd x \<le> snd r"
      unfolding r_def by blast
    have "snd kv \<le> snd r"
    proof (cases pre)
      case Nil
      with eq have "r = kv" by simp
      then show ?thesis by simp
    next
      case (Cons p ps)
      with eq have "kv \<in> set pre" by simp
      with lt show ?thesis by (simp add: less_imp_le)
    qed
    with True have "snd best < snd r" by simp
    with lt have "\<forall>x\<in>set (best # pre). snd x < snd r" by simp
    moreover have "best # kv # kvs = (best # pre) @ r # post" using eq by simp
    ultimately show ?thesis
      unfolding res using le by blast
  next
    case False
    define r where "r = max_loop best kvs"
    have res: "max_loop best (kv # kvs) = r"
      using False by (simp add: r_def)
    from Cons.IH[of best] obtain pre post where
      eq: "best # kvs = pre @ r # post"
      and lt: "\<forall>x\<in>set pre. snd x < snd r"
      and le: "\<forall>x\<in>set post. snd x \<le> snd r"
      unfolding r_def by blast
    show ?thesis
    proof (cases pre)
      case Nil
      with eq have rb: "r = best" and post: "post = kvs" by simp_all
      have "best # kv # kvs = [] @ r # (kv # post)" using rb post by simp
      moreover have "\<forall>x\<in>set (kv # post). snd x \<le> snd r"
        using le False rb by simp
      moreover have "\<forall>x\<in>set ([] :: tally). snd x < snd r" by simp
      ultimately show ?thesis
        unfolding res by blast
    next
      case (Cons p ps)
      with eq have p: "p = best" and kvs: "kvs = ps @ r # post" by simp_all
      have "snd best < snd r" using lt Cons p by simp
      with False have "snd kv < snd r" by simp
      with lt Cons have "\<forall>x\<in>set (best # kv # ps). snd x < snd r"
        using p by simp
      moreover have "best # kv # kvs = (best # kv # ps) @ r # post"
        using kvs by simp
      ultimately show ?thesis
        unfolding res using le by blast
    qed
  qed
qed

lemma max_key_first_maximum:
  assumes "counts \<noteq> []"
  shows "\<exists>pre b n post. counts = pre @ (b, n) # post \<and> max_key counts = Inr b
     \<and> (\<forall>x\<in>set pre. snd x < n) \<and> (\<forall>x\<in>set post. snd x \<le> n)"
proof -
  from assms obtain kv kvs where c: "counts = kv # kvs" by (cases counts) auto
  obtain b n where bn: "max_loop kv kvs = (b, n)" by (cases "max_loop kv kvs")
  from max_loop_first_maximum[of kv kvs] bn obtain pre post where
    "kv # kvs = pre @ (b, n) # post" "\<forall>x\<in>set pre. snd x < n" "\<forall>x\<in>set post. snd x \<le> n"
    by auto
  moreover have "max_key counts = Inr b" by (simp add: max_key_def c bn)
  ultimately show ?thesis using c by blast
qed

section \<open>Properties of the image classifier\<close>










lemma count_images_loop_Inr:
  "\<forall>r\<in>set records. r ''path'' \<noteq> None \<Longrightarrow>
   count_images_loop n records =
     Inr (n + length (filter (\<lambda>r. re_search_image image_extensions (the (r ''path''))) records))"
  by (induction records arbitrary: n) auto

lemma count_images_loop_KeyError:
  "\<exists>r\<in>set records. r ''path'' = None \<Longrightarrow> count_images_loop n records = Inl KeyError"
proof (induction records arbitrary: n)
  case Nil
  then show ?case by simp
next
  case (Cons r rs)
  then show ?case by (cases "r ''path''") auto
qed

section \<open>Properties of the reader\<close>

subsection \<open>The lines of a text\<close>






subsection \<open>One step, one line\<close>















subsection \<open>Rows and lines\<close>



subsection \<open>Blank lines\<close>









subsection \<open>Lines in which no field starts with a quote character\<close>





subsection \<open>Records\<close>


lemma split_at_not_Nil: "split_at sep piece cs \<noteq> []"
  by (induction cs arbitrary: piece) auto








subsection \<open>The rows of a text\<close>






section \<open>Properties of the division\<close>

lemma bit_length_upper: "n < 2 ^ bit_length n"
proof (induction n rule: bit_length.induct)
  case (1 n)
  show ?case
  proof (cases "n = 0")
    case True
    then show ?thesis by simp
  next
    case False
    with 1 have "n div 2 < 2 ^ bit_length (n div 2)" by simp
    then have "n < 2 * 2 ^ bit_length (n div 2)" by linarith
    moreover have "bit_length n = Suc (bit_length (n div 2))"
      using False by (subst bit_length.simps) simp
    ultimately show ?thesis by simp
  qed
qed

lemma bit_length_lower: "0 < n \<Longrightarrow> 2 ^ bit_length n \<le> 2 * n"
proof (induction n rule: bit_length.induct)
  case (1 n)
  then have n: "n \<noteq> 0" by simp
  have b: "bit_length n = Suc (bit_length (n div 2))"
    using n by (subst bit_length.simps) simp
  show ?case
  proof (cases "n div 2 = 0")
    case True
    then have "bit_length (n div 2) = 0" by simp
    with b n show ?thesis by simp
  next
    case False
    with 1 n have "2 ^ bit_length (n div 2) \<le> 2 * (n div 2)" by simp
    also have "\<dots> \<le> n" by simp
    finally show ?thesis using b by simp
  qed
qed

lemma power2_le_nonneg: "power2_le (int j) n d \<longleftrightarrow> d * 2 ^ j \<le> n"
  by (simp add: power2_le_def)

lemma power2_le_neg: "0 < j \<Longrightarrow> power2_le (- int j) n d \<longleftrightarrow> d \<le> n * 2 ^ j"
  by (simp add: power2_le_def)

text \<open>The quotient lies between the powers of two next to the difference of the bit lengths.\<close>

lemma power2_le_upper:
  assumes "0 < d"
  shows "\<not> power2_le (int (bit_length n) - int (bit_length d) + 1) n d"
proof -
  define bn where "bn = bit_length n"
  define bd where "bd = bit_length d"
  have n: "n < 2 ^ bn"
    unfolding bn_def by (rule bit_length_upper)
  have d: "2 ^ bd \<le> 2 * d"
    unfolding bd_def using assms by (rule bit_length_lower)
  show ?thesis
  proof (cases "bd \<le> bn + 1")
    case True
    define j where "j = bn + 1 - bd"
    have j: "bn + 1 = bd + j"
      using True by (simp add: j_def)
    have "2 * 2 ^ bn = (2::nat) ^ (bn + 1)" by simp
    also have "\<dots> = 2 ^ bd * 2 ^ j"
      unfolding j by (rule power_add)
    also have "\<dots> \<le> (2 * d) * 2 ^ j"
      using d by (rule mult_le_mono1)
    finally have "2 ^ bn \<le> d * 2 ^ j" by simp
    with n have "n < d * 2 ^ j" by simp
    then have "\<not> power2_le (int j) n d"
      by (simp add: power2_le_nonneg)
    moreover have "int bn - int bd + 1 = int j"
      using j by simp
    ultimately show ?thesis
      by (simp add: bn_def bd_def)
  next
    case False
    define j where "j = bd - (bn + 1)"
    have j: "bd = bn + 1 + j" "0 < j"
      using False by (simp_all add: j_def)
    have "n * 2 ^ j < 2 ^ bn * 2 ^ j"
      using n by simp
    moreover have "2 * (2 ^ bn * 2 ^ j) = (2::nat) ^ bd"
      unfolding j by (simp add: power_add)
    ultimately have "2 * (n * 2 ^ j) < 2 * d"
      using d by linarith
    then have "\<not> d \<le> n * 2 ^ j" by simp
    then have "\<not> power2_le (- int j) n d"
      using j(2) by (simp add: power2_le_neg)
    moreover have "int bn - int bd + 1 = - int j"
      using j(1) by simp
    ultimately show ?thesis
      by (simp add: bn_def bd_def)
  qed
qed

lemma power2_le_lower:
  assumes "0 < n"
  shows "power2_le (int (bit_length n) - int (bit_length d) - 1) n d"
proof -
  define bn where "bn = bit_length n"
  define bd where "bd = bit_length d"
  have n: "2 ^ bn \<le> 2 * n"
    unfolding bn_def using assms by (rule bit_length_lower)
  have d: "d < 2 ^ bd"
    unfolding bd_def by (rule bit_length_upper)
  show ?thesis
  proof (cases "bd + 1 \<le> bn")
    case True
    define j where "j = bn - (bd + 1)"
    have j: "bn = bd + 1 + j"
      using True by (simp add: j_def)
    have "d * 2 ^ j \<le> 2 ^ bd * 2 ^ j"
      using d by simp
    moreover have "2 * (2 ^ bd * 2 ^ j) = (2::nat) ^ bn"
      unfolding j by (simp add: power_add)
    ultimately have "2 * (d * 2 ^ j) \<le> 2 * n"
      using n by linarith
    then have "power2_le (int j) n d"
      by (simp add: power2_le_nonneg)
    moreover have "int bn - int bd - 1 = int j"
      using j by simp
    ultimately show ?thesis
      by (simp add: bn_def bd_def)
  next
    case False
    define j where "j = bd + 1 - bn"
    have j: "bd + 1 = bn + j" "0 < j"
      using False by (simp_all add: j_def)
    have "2 * 2 ^ bd = (2::nat) ^ (bd + 1)" by simp
    also have "\<dots> = 2 ^ bn * 2 ^ j"
      unfolding j(1) by (rule power_add)
    also have "\<dots> \<le> (2 * n) * 2 ^ j"
      using n by (rule mult_le_mono1)
    finally have "2 ^ bd \<le> n * 2 ^ j" by simp
    with d have "d \<le> n * 2 ^ j" by simp
    then have "power2_le (- int j) n d"
      using j(2) by (simp add: power2_le_neg)
    moreover have "int bn - int bd - 1 = - int j"
      using j(1) by simp
    ultimately show ?thesis
      by (simp add: bn_def bd_def)
  qed
qed

text \<open>Rounding to the nearest integer, against an even bound.\<close>

lemma round_half_even_le:
  assumes "0 < d" and "n < b * d"
  shows "round_half_even n d \<le> b"
proof -
  have "n div d < b"
    using assms by (simp add: less_mult_imp_div_less)
  moreover have "round_half_even n d \<le> n div d + 1"
    by (simp add: round_half_even_def Let_def)
  ultimately show ?thesis by linarith
qed

lemma round_half_even_ge_iff:
  assumes "0 < d" and "even b" and "0 < b"
  shows "b \<le> round_half_even n d \<longleftrightarrow> (2 * b - 1) * d \<le> 2 * n"
proof -
  define q where "q = n div d"
  define r where "r = n mod d"
  define x where "x = b * d"
  define y where "y = q * d"
  define c where "c = (2 * b - 1) * d"
  have n: "n = y + r" and r: "r < d"
    using assms(1) by (simp_all add: q_def r_def y_def)
  have "2 * b - 1 + 1 = 2 * b"
    using assms(3) by simp
  then have "(2 * b - 1 + 1) * d = 2 * b * d"
    by simp
  then have c: "c + d = 2 * x"
    unfolding c_def x_def by (simp add: add_mult_distrib)
  have rhe: "round_half_even n d =
      (if 2 * r < d then q else if d < 2 * r then q + 1 else if even q then q else q + 1)"
    by (simp add: round_half_even_def Let_def q_def r_def)
  consider "b \<le> q" | "q + 2 \<le> b" | "q + 1 = b"
    by linarith
  then have "b \<le> round_half_even n d \<longleftrightarrow> c \<le> 2 * n"
  proof cases
    case 1
    then have "b \<le> round_half_even n d"
      by (simp add: rhe)
    moreover have "x \<le> y"
      unfolding x_def y_def using 1 by (rule mult_le_mono1)
    then have "c \<le> 2 * n"
      using c n by linarith
    ultimately show ?thesis by simp
  next
    case 2
    then have "\<not> b \<le> round_half_even n d"
      by (simp add: rhe)
    moreover have "(q + 2) * d \<le> b * d"
      using 2 by (rule mult_le_mono1)
    then have "y + 2 * d \<le> x"
      unfolding x_def y_def by (simp add: add_mult_distrib)
    then have "\<not> c \<le> 2 * n"
      using c n r by linarith
    ultimately show ?thesis by simp
  next
    case 3
    then have "odd q"
      using assms(2) by auto
    then have "b \<le> round_half_even n d \<longleftrightarrow> d \<le> 2 * r"
      using 3 by (auto simp: rhe)
    moreover have "(q + 1) * d = b * d"
      using 3 by simp
    then have "x = y + d"
      unfolding x_def y_def by (simp add: add_mult_distrib)
    then have "c \<le> 2 * n \<longleftrightarrow> d \<le> 2 * r"
      using c n by linarith
    ultimately show ?thesis by simp
  qed
  then show ?thesis
    by (simp add: c_def)
qed

text \<open>
  The quotient is too large for a float exactly from \<open>2\<^sup>1\<^sup>0\<^sup>2\<^sup>4 - 2\<^sup>9\<^sup>7\<^sup>0\<close> on, the
  middle of the largest float and \<open>2\<^sup>1\<^sup>0\<^sup>2\<^sup>4\<close>.
\<close>

lemma quotient_large:
  assumes "power2_le l n d" and "1024 \<le> l"
  shows "(2 ^ 1024 - 2 ^ 970) * d \<le> n"
proof -
  from assms(2) have "0 \<le> l" by simp
  then obtain j where j: "l = int j"
    by (rule nonneg_int_cases)
  with assms(2) have "1024 \<le> j" by simp
  then have "(2::nat) ^ 1024 \<le> 2 ^ j"
    by (rule power_increasing) simp
  moreover have "(2::nat) ^ 1024 - 2 ^ 970 \<le> 2 ^ 1024"
    by (rule diff_le_self)
  ultimately have "(2::nat) ^ 1024 - 2 ^ 970 \<le> 2 ^ j"
    by (rule order_trans[rotated])
  then have "(2 ^ 1024 - 2 ^ 970) * d \<le> 2 ^ j * d"
    by (rule mult_le_mono1)
  also have "\<dots> \<le> n"
    using assms(1) unfolding j power2_le_nonneg by (simp only: mult.commute)
  finally show ?thesis .
qed

lemma quotient_small:
  assumes "\<not> power2_le (l + 1) n d" and "l \<le> 1022" and "0 < d"
  shows "n < (2 ^ 1024 - 2 ^ 970) * d"
proof (cases "0 \<le> l + 1")
  case True
  then obtain j where j: "l + 1 = int j"
    by (rule nonneg_int_cases)
  with assms(2) have "j \<le> 1023" by simp
  then have "(2::nat) ^ j \<le> 2 ^ 1023"
    by (rule power_increasing) simp
  also have "(2::nat) ^ 1023 \<le> 2 ^ 1024 - 2 ^ 970" by simp
  finally have "2 ^ j * d \<le> (2 ^ 1024 - 2 ^ 970) * d"
    by (rule mult_le_mono1)
  moreover have "n < d * 2 ^ j"
    using assms(1) unfolding j power2_le_nonneg by simp
  then have "n < 2 ^ j * d"
    by (simp only: mult.commute)
  ultimately show ?thesis
    by (rule less_le_trans[rotated])
next
  case False
  then have "l + 1 < 0" by simp
  then obtain j where j: "0 < j" "l + 1 = - int j"
    by (rule neg_int_cases)
  have "n * 2 ^ j < d"
    using assms(1) unfolding j(2) power2_le_neg[OF j(1)] by simp
  moreover have "n * 1 \<le> n * 2 ^ j"
    by (rule mult_le_mono2) simp
  then have "n \<le> n * 2 ^ j"
    by (simp only: mult_1_right)
  ultimately have "n < d"
    by (rule le_less_trans[rotated])
  then have "n < 1 * d"
    by (simp only: mult_1)
  also have "1 * d \<le> (2 ^ 1024 - 2 ^ 970) * d"
    by (rule mult_le_mono1) simp
  finally show ?thesis .
qed

lemma double_le_cancel: "2 * a \<le> 2 * b \<longleftrightarrow> a \<le> (b::nat)"
  by simp

lemma quotient_edge:
  assumes "0 < d" and "\<not> power2_le 1024 n d"
  shows "round_at 971 n d = 2 ^ 53 \<longleftrightarrow> (2 ^ 1024 - 2 ^ 970) * d \<le> n"
proof -
  define D where "D = d * 2 ^ 971"
  have m: "round_at 971 n d = round_half_even n D"
    by (simp add: round_at_def D_def)
  have D: "0 < D"
    using assms(1) by (simp add: D_def)
  have "power2_le 1024 n d \<longleftrightarrow> d * 2 ^ 1024 \<le> n"
    by (simp add: power2_le_def)
  with assms(2) have "n < d * 2 ^ 1024" by simp
  also have "d * 2 ^ 1024 = 2 ^ 53 * D"
    by (simp add: D_def)
  finally have "round_half_even n D \<le> 2 ^ 53"
    using D by (intro round_half_even_le)
  then have "round_half_even n D = 2 ^ 53 \<longleftrightarrow> 2 ^ 53 \<le> round_half_even n D"
    by (intro iffI) (simp_all only: order_refl le_antisym)
  also have "\<dots> \<longleftrightarrow> (2 * 2 ^ 53 - 1) * D \<le> 2 * n"
    using D by (intro round_half_even_ge_iff) simp_all
  also have "(2 * 2 ^ 53 - 1) * D = 2 * ((2 ^ 1024 - 2 ^ 970) * d)"
    by (simp add: D_def)
  also have "2 * ((2 ^ 1024 - 2 ^ 970) * d) \<le> 2 * n \<longleftrightarrow> (2 ^ 1024 - 2 ^ 970) * d \<le> n"
    by (rule double_le_cancel)
  finally show ?thesis
    unfolding m .
qed

lemma round_binary64_snd:
  assumes "n \<noteq> 0"
  shows "snd (round_binary64 n d) =
     (let k = int (bit_length n) - int (bit_length d);
          l = (if power2_le k n d then k else k - 1);
          e = max (l - 52) (- 1074)
      in if round_at e n d = 2 ^ 53 then e + 1 else e)"
  unfolding round_binary64_def Let_def using assms by (simp only: if_False snd_conv if_distrib[of snd])

lemma round_binary64_exponent:
  assumes "0 < d"
  shows "971 < snd (round_binary64 n d) \<longleftrightarrow> (2 ^ 1024 - 2 ^ 970) * d \<le> n"
proof (cases "n = 0")
  case True
  have "snd (round_binary64 0 d) = - 1074"
    by (simp add: round_binary64_def)
  moreover have "0 < (2 ^ 1024 - 2 ^ 970) * d"
    using assms by simp
  ultimately show ?thesis
    using True by simp
next
  case False
  define k where "k = int (bit_length n) - int (bit_length d)"
  define l where "l = (if power2_le k n d then k else k - 1)"
  define e where "e = max (l - 52) (- 1074)"
  define m where "m = round_at e n d"
  have result: "snd (round_binary64 n d) = (if m = 2 ^ 53 then e + 1 else e)"
    unfolding round_binary64_snd[OF False] m_def e_def l_def k_def Let_def ..
  have "power2_le (k - 1) n d"
    unfolding k_def using False by (intro power2_le_lower) simp
  then have lower: "power2_le l n d"
    unfolding l_def by (cases "power2_le k n d") simp_all
  have "\<not> power2_le (k + 1) n d"
    unfolding k_def using assms by (rule power2_le_upper)
  then have upper: "\<not> power2_le (l + 1) n d"
    unfolding l_def by (cases "power2_le k n d") simp_all
  consider "1024 \<le> l" | "l \<le> 1022" | "l = 1023"
    by linarith
  then show ?thesis
  proof cases
    case 1
    then have "972 \<le> e"
      unfolding e_def by simp
    then have "971 < snd (round_binary64 n d)"
      unfolding result by simp
    moreover have "(2 ^ 1024 - 2 ^ 970) * d \<le> n"
      using lower 1 by (rule quotient_large)
    ultimately show ?thesis by simp
  next
    case 2
    then have "e \<le> 970"
      unfolding e_def by simp
    then have "\<not> 971 < snd (round_binary64 n d)"
      unfolding result by simp
    moreover have "n < (2 ^ 1024 - 2 ^ 970) * d"
      using upper 2 assms by (rule quotient_small)
    ultimately show ?thesis by simp
  next
    case 3
    then have e: "e = 971"
      unfolding e_def by simp
    have "\<not> power2_le 1024 n d"
      using upper unfolding 3 by simp
    with assms have "m = 2 ^ 53 \<longleftrightarrow> (2 ^ 1024 - 2 ^ 970) * d \<le> n"
      unfolding m_def e by (rule quotient_edge)
    moreover have "971 < snd (round_binary64 n d) \<longleftrightarrow> m = 2 ^ 53"
      unfolding result e by simp
    ultimately show ?thesis by simp
  qed
qed

lemma int_true_divide_overflow:
  assumes "0 < b"
  shows "int_true_divide a b = Inl OverflowError \<longleftrightarrow> (2 ^ 1024 - 2 ^ 970) * b \<le> a"
proof -
  have "int_true_divide a b = Inl OverflowError \<longleftrightarrow> 971 < snd (round_binary64 a b)"
    using assms by (simp add: int_true_divide_def split: prod.splits)
  then show ?thesis
    using assms by (simp add: round_binary64_exponent)
qed

lemma int_true_divide_returns:
  assumes "0 < b" and "a < (2 ^ 1024 - 2 ^ 970) * b"
  shows "\<exists>m e. int_true_divide a b = Inr (Float m e)"
proof -
  have "\<not> 971 < snd (round_binary64 a b)"
    using assms by (simp add: round_binary64_exponent)
  then show ?thesis
    using assms(1) by (cases "round_binary64 a b") (simp add: int_true_divide_def)
qed

lemma find_image_percentage_overflow:
  assumes "0 < rows_total"
  shows "find_image_percentage n rows_total = Inl OverflowError \<longleftrightarrow>
     (2 ^ 1024 - 2 ^ 970) * rows_total \<le> n"
proof -
  have "find_image_percentage n rows_total = Inl OverflowError \<longleftrightarrow>
      int_true_divide n rows_total = Inl OverflowError"
    by (simp add: find_image_percentage_def split: sum.splits)
  then show ?thesis
    using assms by (simp add: int_true_divide_overflow)
qed

lemma find_image_percentage_returns:
  assumes "0 < rows_total" and "n < (2 ^ 1024 - 2 ^ 970) * rows_total"
  shows "\<exists>m e. int_true_divide n rows_total = Inr (Float m e)
     \<and> find_image_percentage n rows_total = Inr (float_times_100 (Float m e))"
proof -
  from assms obtain m e where "int_true_divide n rows_total = Inr (Float m e)"
    using int_true_divide_returns by blast
  then show ?thesis
    by (simp add: find_image_percentage_def)
qed

lemma find_image_percentage_zero: "find_image_percentage n 0 = Inl ZeroDivisionError"
  by (simp add: find_image_percentage_def int_true_divide_def)

lemma main_empty_text: "main [] = Inl ZeroDivisionError"
  by (simp add: main_def read_csv_def readlines_def parse_reset_def count_images_def
      find_image_percentage_zero)

section \<open>The claims about the browser detector\<close>

text \<open>
  Claim C1, as the code has it: the tally that is incremented is the one of the
  identifier whose occurrence starts leftmost in the \<open>browser\<close> field. When an
  identifier \<open>a\<close> occurs at position \<open>i\<close> of the field and no identifier occurs
  at an earlier position, the loop body adds one to the count of \<open>a\<close> and leaves
  the other counts as they are, whatever the places of the identifiers in the
  fixed list.
\<close>

theorem browser_match_is_leftmost_in_text:
  assumes "map fst counts = browser_types"
    and "record ''browser'' = Some b"
    and "a \<in> set browser_types" and "i \<le> length b" and "prefix (str a) (drop i b)"
    and "\<forall>j<i. \<forall>a'\<in>set browser_types. \<not> prefix (str a') (drop j b)"
  shows "count_browser counts record =
           Inr (map (\<lambda>(k, n). (k, if k = a then n + 1 else n)) counts)"
proof -
  have "match_alternatives browser_types (drop i b) = Some a"
    using assms(3,5) by (rule browser_types_prefix_unique)
  moreover have "\<forall>j<i. match_alternatives browser_types (drop j b) = None"
    using assms(6) by (simp add: match_alternatives_None)
  ultimately have "re_search_group browser_types b = Some a"
    using assms(4) by (intro re_search_group_at[of i]) auto
  moreover have "increment a counts = Inr (map (\<lambda>(k, n). (k, if k = a then n + 1 else n)) counts)"
    using assms(1,3) by (intro increment_map) (simp_all add: distinct_browser_types)
  ultimately show ?thesis
    using assms(2) by (simp add: count_browser_def)
qed

text \<open>
  The field \<open>Mozilla Safari Chrome\<close> holds two identifiers; \<open>Safari\<close>, the last of
  the list, starts first in the text (at position 8) and is the one counted.
\<close>

theorem browser_match_is_leftmost_in_text_witness:
  "count_browser initial_counts [''browser'' \<mapsto> str ''Mozilla Safari Chrome''] =
     Inr [(''Firefox'', 0), (''Chrome'', 0), (''Internet Explorer'', 0), (''Safari'', 1)]"
  using browser_match_is_leftmost_in_text[of initial_counts
      "[''browser'' \<mapsto> str ''Mozilla Safari Chrome'']" "str ''Mozilla Safari Chrome''" "''Safari''" 8]
  by (simp add: initial_counts_def browser_types_def eval_nat_numeral All_less_Suc str_def)

text \<open>
  Claim C1 as the specification states it fails: in the field \<open>Chrome Firefox\<close>
  the first identifier of the list that appears is \<open>Firefox\<close>, and the code
  counts \<open>Chrome\<close>.
\<close>

theorem browser_first_in_list_counterexample:
  "spec_first_in_list (str ''Chrome Firefox'') = Some ''Firefox''
   \<and> count_browser initial_counts [''browser'' \<mapsto> str ''Chrome Firefox'']
       = Inr [(''Firefox'', 0), (''Chrome'', 1), (''Internet Explorer'', 0), (''Safari'', 0)]"
  by (simp add: spec_first_in_list_def count_browser_def initial_counts_def browser_types_def
      sublist_Cons_right str_def)

text \<open>
  Claim C3: for every tally over the fixed list, \<open>max\<close> returns an identifier
  whose count is the maximum, all identifiers before it in the list having a
  strictly smaller count; \<open>find_most_used_browser\<close> returns what \<open>max\<close> returns on
  the final tally, whose keys are the fixed list in its order. The tally
  Firefox 2, Chrome 2, Internet Explorer 0, Safari 0 gives Firefox, and so does
  the tally of zeros.
\<close>

theorem most_used_browser_is_first_maximum:
  "(map fst counts = browser_types \<longrightarrow>
      (\<exists>pre b n post. counts = pre @ (b, n) # post \<and> max_key counts = Inr b
         \<and> (\<forall>x\<in>set pre. snd x < n) \<and> (\<forall>x\<in>set post. snd x \<le> n)))
   \<and> (count_browsers initial_counts records = Inr counts \<longrightarrow>
        map fst counts = browser_types \<and> find_most_used_browser records = max_key counts)
   \<and> max_key [(''Firefox'', 2), (''Chrome'', 2), (''Internet Explorer'', 0), (''Safari'', 0)]
        = Inr ''Firefox''
   \<and> max_key [(''Firefox'', 0), (''Chrome'', 0), (''Internet Explorer'', 0), (''Safari'', 0)]
        = Inr ''Firefox''"
proof (intro conjI impI)
  assume "map fst counts = browser_types"
  then have "counts \<noteq> []" by (auto simp: browser_types_def)
  then show "\<exists>pre b n post. counts = pre @ (b, n) # post \<and> max_key counts = Inr b
         \<and> (\<forall>x\<in>set pre. snd x < n) \<and> (\<forall>x\<in>set post. snd x \<le> n)"
    by (rule max_key_first_maximum)
next
  assume a: "count_browsers initial_counts records = Inr counts"
  then show "map fst counts = browser_types"
    using count_browsers_keys initial_counts_keys by fastforce
  from a show "find_most_used_browser records = max_key counts"
    by (simp add: find_most_used_browser_def)
next
  show "max_key [(''Firefox'', 2), (''Chrome'', 2), (''Internet Explorer'', 0), (''Safari'', 0)]
        = Inr ''Firefox''"
    by (simp add: max_key_def)
  show "max_key [(''Firefox'', 0), (''Chrome'', 0), (''Internet Explorer'', 0), (''Safari'', 0)]
        = Inr ''Firefox''"
    by (simp add: max_key_def)
qed

text \<open>
  Two records of Chrome, one of Firefox and two of Safari: the final tally is
  Firefox 1, Chrome 2, Internet Explorer 0, Safari 2, and Chrome, the first of
  the two maxima, is returned.
\<close>

theorem most_used_browser_is_first_maximum_witness:
  "count_browsers initial_counts
      [[''browser'' \<mapsto> str ''Safari''], [''browser'' \<mapsto> str ''Chrome''], [''browser'' \<mapsto> str ''Firefox''],
       [''browser'' \<mapsto> str ''Safari''], [''browser'' \<mapsto> str ''Chrome'']]
     = Inr [(''Firefox'', 1), (''Chrome'', 2), (''Internet Explorer'', 0), (''Safari'', 2)]
   \<and> find_most_used_browser
      [[''browser'' \<mapsto> str ''Safari''], [''browser'' \<mapsto> str ''Chrome''], [''browser'' \<mapsto> str ''Firefox''],
       [''browser'' \<mapsto> str ''Safari''], [''browser'' \<mapsto> str ''Chrome'']]
     = Inr ''Chrome''
   \<and> (\<exists>pre b n post.
        [(''Firefox'', 1::nat), (''Chrome'', 2), (''Internet Explorer'', 0), (''Safari'', 2)]
          = pre @ (b, n) # post
        \<and> max_key [(''Firefox'', 1), (''Chrome'', 2), (''Internet Explorer'', 0), (''Safari'', 2)]
          = Inr b
        \<and> (\<forall>x\<in>set pre. snd x < n) \<and> (\<forall>x\<in>set post. snd x \<le> n))"
proof -
  let ?records = "[[''browser'' \<mapsto> str ''Safari''], [''browser'' \<mapsto> str ''Chrome''],
    [''browser'' \<mapsto> str ''Firefox''], [''browser'' \<mapsto> str ''Safari''], [''browser'' \<mapsto> str ''Chrome'']]"
  let ?counts = "[(''Firefox'', 1::nat), (''Chrome'', 2), (''Internet Explorer'', 0), (''Safari'', 2)]"
  have tally: "count_browsers initial_counts ?records = Inr ?counts"
    by (simp add: count_browser_def initial_counts_def browser_types_def str_def)
  have keys: "map fst ?counts = browser_types"
    by (simp add: browser_types_def)
  have "max_key ?counts = Inr ''Chrome''"
    by (simp add: max_key_def)
  with tally keys most_used_browser_is_first_maximum[of ?counts ?records]
  show ?thesis by simp
qed

text \<open>
  Claim C9: the identifiers are matched with their exact letters. A record
  whose \<open>browser\<close> field holds no identifier of the list as it is written there
  leaves every count as it is, also when the field holds an identifier in
  another letter case, as \<open>firefox\<close> and \<open>CHROME\<close> do.
\<close>

theorem browser_match_is_case_sensitive:
  "(record ''browser'' = Some b \<and> (\<forall>a\<in>set browser_types. \<not> sublist (str a) b) \<longrightarrow>
      count_browser counts record = Inr counts)
   \<and> count_browser counts [''browser'' \<mapsto> str ''firefox''] = Inr counts
   \<and> count_browser counts [''browser'' \<mapsto> str ''Mozilla CHROME 90''] = Inr counts"
proof (intro conjI impI)
  assume "record ''browser'' = Some b \<and> (\<forall>a\<in>set browser_types. \<not> sublist (str a) b)"
  then show "count_browser counts record = Inr counts"
    by (simp add: count_browser_def re_search_group_None[symmetric])
next
  show "count_browser counts [''browser'' \<mapsto> str ''firefox''] = Inr counts"
    by (simp add: count_browser_def browser_types_def str_def)
  show "count_browser counts [''browser'' \<mapsto> str ''Mozilla CHROME 90''] = Inr counts"
    by (simp add: count_browser_def browser_types_def str_def)
qed

theorem browser_match_is_case_sensitive_witness:
  "[''browser'' \<mapsto> str ''Opera, not FIREFOX''] ''browser'' = Some (str ''Opera, not FIREFOX'')
   \<and> \<not> (\<exists>a\<in>set browser_types. sublist (str a) (str ''Opera, not FIREFOX''))
   \<and> count_browser initial_counts [''browser'' \<mapsto> str ''Opera, not FIREFOX''] = Inr initial_counts"
proof -
  have "\<forall>a\<in>set browser_types. \<not> sublist (str a) (str ''Opera, not FIREFOX'')"
    by (simp add: browser_types_def sublist_Cons_right str_def)
  with browser_match_is_case_sensitive[of "[''browser'' \<mapsto> str ''Opera, not FIREFOX'']"
      "str ''Opera, not FIREFOX''" initial_counts]
  show ?thesis by simp
qed

section \<open>The claims about the image classifier\<close>




text \<open>
  Claim C2, as the code has it: \<open>count_images\<close> reads \<open>record['path']\<close> and
  \<open>find_most_used_browser\<close> reads \<open>record['browser']\<close> of every record, so each of
  them returns when every record has the field it reads (the other fields may
  be absent) and raises \<open>KeyError\<close> when some record lacks that field.
\<close>

theorem absent_field_raises_key_error:
  "((\<forall>r\<in>set records. r ''path'' \<noteq> None) \<longrightarrow>
      count_images records =
        Inr (length (filter (\<lambda>r. re_search_image image_extensions (the (r ''path''))) records)))
   \<and> ((\<exists>r\<in>set records. r ''path'' = None) \<longrightarrow> count_images records = Inl KeyError)
   \<and> ((\<forall>r\<in>set records. r ''browser'' \<noteq> None) \<longrightarrow>
        (\<exists>b\<in>set browser_types. find_most_used_browser records = Inr b))
   \<and> ((\<exists>r\<in>set records. r ''browser'' = None) \<longrightarrow>
        find_most_used_browser records = Inl KeyError)"
proof (intro conjI impI)
  assume "\<forall>r\<in>set records. r ''path'' \<noteq> None"
  then show "count_images records =
        Inr (length (filter (\<lambda>r. re_search_image image_extensions (the (r ''path''))) records))"
    by (simp add: count_images_def count_images_loop_Inr)
next
  assume "\<exists>r\<in>set records. r ''path'' = None"
  then show "count_images records = Inl KeyError"
    by (simp add: count_images_def count_images_loop_KeyError)
next
  assume "\<forall>r\<in>set records. r ''browser'' \<noteq> None"
  then obtain counts where c: "count_browsers initial_counts records = Inr counts"
    using count_browsers_Inr[OF initial_counts_keys] by blast
  then have keys: "map fst counts = browser_types"
    using count_browsers_keys initial_counts_keys by fastforce
  then have "counts \<noteq> []" by (auto simp: browser_types_def)
  then obtain pre b n post where "counts = pre @ (b, n) # post" "max_key counts = Inr b"
    using max_key_first_maximum by blast
  then have "b \<in> set (map fst counts)" "find_most_used_browser records = Inr b"
    using c by (simp_all add: find_most_used_browser_def)
  with keys show "\<exists>b\<in>set browser_types. find_most_used_browser records = Inr b"
    by auto
next
  assume "\<exists>r\<in>set records. r ''browser'' = None"
  then have "count_browsers initial_counts records = Inl KeyError"
    using count_browsers_KeyError[OF initial_counts_keys] by blast
  then show "find_most_used_browser records = Inl KeyError"
    by (simp add: find_most_used_browser_def)
qed

text \<open>
  A row of three columns has \<open>path\<close> and \<open>browser\<close> and both functions return; a
  row of two columns has no \<open>browser\<close>, and the row of a blank line has no field.
\<close>

theorem absent_field_raises_key_error_witness:
  "count_images [make_record [str ''/a.png'', str ''2020-01-01'', str ''Firefox 89'']] = Inr 1
   \<and> (\<exists>b\<in>set browser_types.
        find_most_used_browser [make_record [str ''/a.png'', str ''2020-01-01'', str ''Firefox 89'']] = Inr b)
   \<and> count_images [make_record []] = Inl KeyError
   \<and> find_most_used_browser [make_record [str ''/a.png'', str ''2020-01-01'']] = Inl KeyError"
proof -
  have "re_search_image image_extensions (str ''/a.png'')"
    by (simp add: image_extensions_def str_def match_image_here_def literal_matches_def at_end_def)
  then show ?thesis
    using absent_field_raises_key_error[of "[make_record [str ''/a.png'', str ''2020-01-01'', str ''Firefox 89'']]"]
      absent_field_raises_key_error[of "[make_record []]"]
      absent_field_raises_key_error[of "[make_record [str ''/a.png'', str ''2020-01-01'']]"]
    by (simp add: make_record_def column_names_def)
qed

text \<open>
  Claim C2 as the specification states it fails: on the record of a blank line
  \<open>count_images\<close> raises, and on the record of a row of two columns
  \<open>find_most_used_browser\<close> raises.
\<close>

theorem absent_field_counterexample:
  "count_images [Map.empty] = Inl KeyError
   \<and> find_most_used_browser [[''path'' \<mapsto> str ''/index.html'', ''datetime_accessed'' \<mapsto> str ''2020-01-01'']]
       = Inl KeyError"
  by (simp add: count_images_def find_most_used_browser_def count_browser_def)

section \<open>The claim about the percentage\<close>

text \<open>
  Claim C5, as the code has it: \<open>find_image_percentage\<close> has no branch on the
  total. When the total is zero the division raises \<open>ZeroDivisionError\<close>, and
  so does \<open>main\<close> on the empty text, which gives no record. When the total is
  positive the division raises \<open>OverflowError\<close> exactly when the image count
  is at least \<open>2\<^sup>1\<^sup>0\<^sup>2\<^sup>4 - 2\<^sup>9\<^sup>7\<^sup>0\<close> times the total; below that bound the function
  returns the float product by 100 of the float quotient of the two counts, and
  it does so whenever the image count is at most the total.
\<close>

theorem percentage_returns_unless_too_large:
  "find_image_percentage n 0 = Inl ZeroDivisionError
   \<and> main [] = Inl ZeroDivisionError
   \<and> (0 < rows_total \<longrightarrow>
        (find_image_percentage n rows_total = Inl OverflowError
           \<longleftrightarrow> (2 ^ 1024 - 2 ^ 970) * rows_total \<le> n)
        \<and> (n < (2 ^ 1024 - 2 ^ 970) * rows_total \<longrightarrow>
             (\<exists>m e. int_true_divide n rows_total = Inr (Float m e)
                \<and> find_image_percentage n rows_total = Inr (float_times_100 (Float m e))))
        \<and> (n \<le> rows_total \<longrightarrow> (\<exists>p. find_image_percentage n rows_total = Inr p)))"
proof (intro conjI impI)
  show "find_image_percentage n 0 = Inl ZeroDivisionError"
    by (rule find_image_percentage_zero)
  show "main [] = Inl ZeroDivisionError"
    by (rule main_empty_text)
next
  assume "0 < rows_total"
  then show "find_image_percentage n rows_total = Inl OverflowError
      \<longleftrightarrow> (2 ^ 1024 - 2 ^ 970) * rows_total \<le> n"
    by (rule find_image_percentage_overflow)
next
  assume "0 < rows_total" and "n < (2 ^ 1024 - 2 ^ 970) * rows_total"
  then show "\<exists>m e. int_true_divide n rows_total = Inr (Float m e)
      \<and> find_image_percentage n rows_total = Inr (float_times_100 (Float m e))"
    by (rule find_image_percentage_returns)
next
  assume total: "0 < rows_total" and "n \<le> rows_total"
  have "1 * rows_total < (2 ^ 1024 - 2 ^ 970) * rows_total"
    using total by (intro mult_less_mono1) simp_all
  with \<open>n \<le> rows_total\<close> have "n < (2 ^ 1024 - 2 ^ 970) * rows_total"
    by simp
  with total show "\<exists>p. find_image_percentage n rows_total = Inr p"
    using find_image_percentage_returns by blast
qed

text \<open>Two images among three records: the function returns.\<close>

theorem percentage_returns_unless_too_large_witness:
  "0 < (3::nat) \<and> (2::nat) \<le> 3
   \<and> find_image_percentage 2 3 \<noteq> Inl OverflowError
   \<and> (\<exists>p. find_image_percentage 2 3 = Inr p)"
  using percentage_returns_unless_too_large[of 2 3]
  by simp

text \<open>
  Claim C5 as the specification states it fails: with the total 1 and the image
  count \<open>2\<^sup>1\<^sup>0\<^sup>2\<^sup>4\<close> the function does not return a value, the division raises
  \<open>OverflowError\<close>.
\<close>

theorem percentage_overflow_counterexample:
  "0 < (1::nat) \<and> find_image_percentage (2 ^ 1024) 1 = Inl OverflowError"
  using find_image_percentage_overflow[of 1 "2 ^ 1024"]
  by simp

section \<open>The claims about the record parser\<close>










section \<open>The end-to-end example\<close>

lemma example_rows:
  "reader_rows parse_reset (readlines example_text) =
     Inr [[str ''/img/a.jpg'', str ''2020-01-01'', str ''Mozilla Firefox 88'', str ''GET /img/a.jpg'', str ''200''],
          [str ''/index.html'', str ''2020-01-01'', str ''Chrome 90'', str ''GET /index.html'', str ''150''],
          [str ''/pics/b.PNG'', str ''2020-01-01'', str ''Firefox 89'', str ''GET /pics/b.PNG'', str ''300'']]"
  by (simp add: example_text_def readlines_def parse_line_def parse_process_char_def
      start_field_def parse_add_char_def parse_save_field_def parse_reset_def field_limit_def
      is_newline_def str_def)

lemma example_images:
  "re_search_image image_extensions (str ''/img/a.jpg'')"
  "\<not> re_search_image image_extensions (str ''/index.html'')"
  "re_search_image image_extensions (str ''/pics/b.PNG'')"
  by (simp_all add: image_extensions_def str_def match_image_here_def literal_matches_def
      at_end_def)

lemma example_percentage:
  "find_image_percentage 2 3 = Inr (Float 4691249611844266 (- 46))"
  by (simp add: find_image_percentage_def int_true_divide_def round_binary64_def power2_le_def
      round_at_def round_half_even_def Let_def)

lemma example_tally:
  "count_browsers initial_counts
     (map make_record
       [[str ''/img/a.jpg'', str ''2020-01-01'', str ''Mozilla Firefox 88'', str ''GET /img/a.jpg'', str ''200''],
        [str ''/index.html'', str ''2020-01-01'', str ''Chrome 90'', str ''GET /index.html'', str ''150''],
        [str ''/pics/b.PNG'', str ''2020-01-01'', str ''Firefox 89'', str ''GET /pics/b.PNG'', str ''300'']])
   = Inr [(''Firefox'', 2), (''Chrome'', 1), (''Internet Explorer'', 0), (''Safari'', 0)]"
  by (simp add: make_record_def column_names_def count_browser_def initial_counts_def
      browser_types_def str_def)

text \<open>
  Claim C8: on the three lines of the example the parser gives three records,
  two of them are images, the percentage is the float nearest to
  \<open>(2 / 3) * 100\<close>, which \<open>main\<close> prints with two decimals as \<open>66.67\<close>, and the
  most used browser is Firefox, the tally being Firefox 2, Chrome 1.
\<close>

theorem end_to_end_example:
  "main example_text =
     Inr \<lparr>image_count = 2, total_rows = 3,
          image_percentage = Float 4691249611844266 (- 46), browser_count = ''Firefox''\<rparr>
   \<and> format_2f (Float 4691249611844266 (- 46)) = ''66.67''
   \<and> (\<exists>records. read_csv example_text = Inr records
        \<and> count_browsers initial_counts records
            = Inr [(''Firefox'', 2), (''Chrome'', 1), (''Internet Explorer'', 0), (''Safari'', 0)])"
proof -
  let ?records = "map make_record
       [[str ''/img/a.jpg'', str ''2020-01-01'', str ''Mozilla Firefox 88'', str ''GET /img/a.jpg'', str ''200''],
        [str ''/index.html'', str ''2020-01-01'', str ''Chrome 90'', str ''GET /index.html'', str ''150''],
        [str ''/pics/b.PNG'', str ''2020-01-01'', str ''Firefox 89'', str ''GET /pics/b.PNG'', str ''300'']]"
  have r: "read_csv example_text = Inr ?records"
    by (simp add: read_csv_def example_rows)
  have n: "count_images ?records = Inr 2"
    by (simp add: count_images_def make_record_def column_names_def example_images
        del: re_search_image.simps)
  have b: "find_most_used_browser ?records = Inr ''Firefox''"
    unfolding find_most_used_browser_def example_tally by (simp add: max_key_def)
  have l: "length ?records = 3"
    by simp
  have "main example_text =
     Inr \<lparr>image_count = 2, total_rows = 3,
          image_percentage = Float 4691249611844266 (- 46), browser_count = ''Firefox''\<rparr>"
    unfolding main_def r sum.case n l example_percentage b by simp
  moreover have "format_2f (Float 4691249611844266 (- 46)) = ''66.67''"
    by (simp add: round_at_def round_half_even_def Let_def digit_char_def)
  ultimately show ?thesis
    using r example_tally by blast
qed

end
